theory Spec2Isabelle
  imports Complex_Main
begin

section \<open>PageRank: the transition model and the two estimators of pagerank.py\<close>

text \<open>
  The embedding follows \<^verbatim>\<open>src/pagerank.py\<close>. A Python \<^verbatim>\<open>dict\<close> is an association
  list in insertion order (a dictionary never holds a key twice), a Python \<^verbatim>\<open>set\<close> of
  page names is a list without duplicates (what \<^verbatim>\<open>len\<close>, \<^verbatim>\<open>in\<close> and iteration see).
  The arithmetic of the embedding is exact: a Python float is a real number. The last
  subsection of the embedding gives \<open>transition_model\<close> and \<open>sample_pagerank\<close> once more
  with the rounding of every floating-point operation, for the properties that depend on it.
  Every exception the code can raise is a value \<open>Inl e\<close>; a loop that may run forever
  returns \<open>None\<close>.
\<close>

subsection \<open>Values, errors and dictionaries\<close>

datatype py_error = KeyError | ZeroDivisionError | IndexError | ValueError

type_synonym page = string
type_synonym corpus = "(page \<times> page list) list"
type_synonym 'v dict = "(page \<times> 'v) list"

definition DAMPING :: real where
  "DAMPING = 85 / 100"

definition SAMPLES :: int where
  "SAMPLES = 10000"

text \<open>\<^verbatim>\<open>m[k]\<close>: the value stored under \<open>k\<close>, KeyError when there is none.\<close>

definition dict_get :: "(page \<times> 'v) list \<Rightarrow> page \<Rightarrow> py_error + 'v" where
  "dict_get m k = (case map_of m k of None \<Rightarrow> Inl KeyError | Some v \<Rightarrow> Inr v)"

text \<open>\<^verbatim>\<open>m[k] = v\<close>: an existing key keeps its position, a new key goes to the end.\<close>

fun dict_set :: "(page \<times> 'v) list \<Rightarrow> page \<Rightarrow> 'v \<Rightarrow> (page \<times> 'v) list" where
  "dict_set [] k v = [(k, v)]"
| "dict_set ((k', v') # kvs) k v =
     (if k' = k then (k, v) # kvs else (k', v') # dict_set kvs k v)"

text \<open>\<^verbatim>\<open>a / b\<close> on numbers: ZeroDivisionError when \<open>b\<close> is zero.\<close>

definition py_div :: "real \<Rightarrow> real \<Rightarrow> py_error + real" where
  "py_div a b = (if b = 0 then Inl ZeroDivisionError else Inr (a / b))"

text \<open>
  The invariants of the input that Python's types give for free: keys of a dictionary and
  elements of a set are pairwise different.
\<close>

definition dict_ok :: "corpus \<Rightarrow> bool" where
  "dict_ok corpus \<longleftrightarrow>
     distinct (map fst corpus) \<and> list_all (\<lambda>kv. distinct (snd kv)) corpus"

text \<open>The corpus invariant of the crawler: every link points to a page of the corpus.\<close>

definition links_closed :: "corpus \<Rightarrow> bool" where
  "links_closed corpus \<longleftrightarrow>
     list_all (\<lambda>kv. list_all (\<lambda>l. l \<in> set (map fst corpus)) (snd kv)) corpus"

subsection \<open>transition_model\<close>

text \<open>
  The inner loop \<^verbatim>\<open>for i in corpus[page]: if p == i: initual += d / len(corpus[page])\<close>.
  \<open>links\<close> is \<^verbatim>\<open>corpus[page]\<close>, \<open>rest\<close> what is left to iterate.
\<close>

fun link_loop :: "page \<Rightarrow> real \<Rightarrow> page list \<Rightarrow> page list \<Rightarrow> real \<Rightarrow> py_error + real" where
  "link_loop p d links [] initual = Inr initual"
| "link_loop p d links (i # rest) initual =
     (if p = i then
        (case py_div d (real (length links)) of
           Inl e \<Rightarrow> Inl e
         | Inr q \<Rightarrow> link_loop p d links rest (initual + q))
      else link_loop p d links rest initual)"

text \<open>The body of the outer loop for one page \<open>p\<close>: the value stored in \<^verbatim>\<open>result[p]\<close>.\<close>

definition page_weight :: "corpus \<Rightarrow> page \<Rightarrow> real \<Rightarrow> page \<Rightarrow> py_error + real" where
  "page_weight corpus page d p =
     (case py_div (1 - d) (real (length corpus)) of
        Inl e \<Rightarrow> Inl e
      | Inr initual \<Rightarrow>
     (case dict_get corpus page of
        Inl e \<Rightarrow> Inl e
      | Inr links \<Rightarrow>
     (case link_loop p d links links initual of
        Inl e \<Rightarrow> Inl e
      | Inr initual' \<Rightarrow>
     (if length links = 0 then
        (case py_div d (real (length corpus)) of
           Inl e \<Rightarrow> Inl e
         | Inr q \<Rightarrow> Inr (initual' + q))
      else Inr initual'))))"

fun transition_loop ::
  "corpus \<Rightarrow> page \<Rightarrow> real \<Rightarrow> page list \<Rightarrow> real dict \<Rightarrow> py_error + real dict" where
  "transition_loop corpus page d [] result = Inr result"
| "transition_loop corpus page d (p # ps) result =
     (case page_weight corpus page d p of
        Inl e \<Rightarrow> Inl e
      | Inr w \<Rightarrow> transition_loop corpus page d ps (dict_set result p w))"

definition transition_model :: "corpus \<Rightarrow> page \<Rightarrow> real \<Rightarrow> py_error + real dict" where
  "transition_model corpus page d = transition_loop corpus page d (map fst corpus) []"

subsection \<open>iterate_pagerank\<close>

text \<open>
  \<^verbatim>\<open>for i in corpus: previous_Iteration[i] = 1 / len(corpus)\<close>
\<close>

fun init_loop :: "corpus \<Rightarrow> page list \<Rightarrow> real dict \<Rightarrow> py_error + real dict" where
  "init_loop corpus [] previous = Inr previous"
| "init_loop corpus (i # rest) previous =
     (case py_div 1 (real (length corpus)) of
        Inl e \<Rightarrow> Inl e
      | Inr q \<Rightarrow> init_loop corpus rest (dict_set previous i q))"

text \<open>
  The inner loop
  \<^verbatim>\<open>for p in corpus: if i in corpus[p]: sum_Iteration += previous_Iteration[p] / len(corpus[p])\<close>.
  A page \<open>p\<close> with an empty out-set is in no branch: it adds nothing.
\<close>

fun sum_loop ::
  "corpus \<Rightarrow> real dict \<Rightarrow> page \<Rightarrow> page list \<Rightarrow> real \<Rightarrow> py_error + real" where
  "sum_loop corpus previous i [] sum_Iteration = Inr sum_Iteration"
| "sum_loop corpus previous i (p # rest) sum_Iteration =
     (case dict_get corpus p of
        Inl e \<Rightarrow> Inl e
      | Inr links \<Rightarrow>
          if i \<in> set links then
            (case dict_get previous p of
               Inl e \<Rightarrow> Inl e
             | Inr r \<Rightarrow>
            (case py_div r (real (length links)) of
               Inl e \<Rightarrow> Inl e
             | Inr q \<Rightarrow> sum_loop corpus previous i rest (sum_Iteration + q)))
          else sum_loop corpus previous i rest sum_Iteration)"

text \<open>The value \<^verbatim>\<open>current_Iteration\<close> computed for page \<open>i\<close> from the dictionary as it is.\<close>

definition new_rank :: "corpus \<Rightarrow> real \<Rightarrow> real dict \<Rightarrow> page \<Rightarrow> py_error + real" where
  "new_rank corpus d previous i =
     (case py_div (1 - d) (real (length corpus)) of
        Inl e \<Rightarrow> Inl e
      | Inr current \<Rightarrow>
     (case sum_loop corpus previous i (map fst corpus) 0 of
        Inl e \<Rightarrow> Inl e
      | Inr sum_Iteration \<Rightarrow> Inr (current + d * sum_Iteration)))"

text \<open>
  The test \<^verbatim>\<open>if abs(previous_Iteration[i] - current_Iteration <= 0.001)\<close>: the
  comparison binds inside the call, so \<^verbatim>\<open>abs\<close> is applied to the Boolean (1 for True,
  0 for False), and the branch is taken when the result is not zero.
\<close>

definition check_page :: "real \<Rightarrow> real \<Rightarrow> bool" where
  "check_page previous current \<longleftrightarrow>
     \<bar>of_bool (previous - current \<le> 1 / 1000) :: int\<bar> \<noteq> 0"

text \<open>
  One pass \<^verbatim>\<open>for i in corpus: ...\<close> of the while loop. The state is the counter
  \<^verbatim>\<open>check\<close> and the dictionary \<^verbatim>\<open>previous_Iteration\<close>, which is written in place.
\<close>

fun pass_loop ::
  "corpus \<Rightarrow> real \<Rightarrow> page list \<Rightarrow> nat \<times> real dict \<Rightarrow> py_error + nat \<times> real dict" where
  "pass_loop corpus d [] (check, previous) = Inr (check, previous)"
| "pass_loop corpus d (i # rest) (check, previous) =
     (case new_rank corpus d previous i of
        Inl e \<Rightarrow> Inl e
      | Inr current \<Rightarrow>
     (case dict_get previous i of
        Inl e \<Rightarrow> Inl e
      | Inr old \<Rightarrow>
          pass_loop corpus d rest
            (if check_page old current then check + 1 else check,
             dict_set previous i current)))"

text \<open>
  \<^verbatim>\<open>normalizer = sum(previous_Iteration.values())\<close> and
  \<^verbatim>\<open>for i in previous_Iteration: previous_Iteration[i] /= normalizer\<close>
\<close>

fun normalize_loop :: "real \<Rightarrow> page list \<Rightarrow> real dict \<Rightarrow> py_error + real dict" where
  "normalize_loop normalizer [] previous = Inr previous"
| "normalize_loop normalizer (i # rest) previous =
     (case dict_get previous i of
        Inl e \<Rightarrow> Inl e
      | Inr r \<Rightarrow>
     (case py_div r normalizer of
        Inl e \<Rightarrow> Inl e
      | Inr q \<Rightarrow> normalize_loop normalizer rest (dict_set previous i q)))"

definition normalize :: "real dict \<Rightarrow> py_error + real dict" where
  "normalize previous =
     normalize_loop (sum_list (map snd previous)) (map fst previous) previous"

text \<open>
  \<^verbatim>\<open>while True\<close>: a pass, then the return when \<^verbatim>\<open>check == len(corpus)\<close>. There is no
  other exit, so a run that never passes the check is \<open>None\<close>.
\<close>

partial_function (option) iterate_loop ::
  "corpus \<Rightarrow> real \<Rightarrow> real dict \<Rightarrow> (py_error + real dict) option" where
  "iterate_loop corpus d previous =
     (case pass_loop corpus d (map fst corpus) (0, previous) of
        Inl e \<Rightarrow> Some (Inl e)
      | Inr (check, previous') \<Rightarrow>
          if check = length corpus then Some (normalize previous')
          else iterate_loop corpus d previous')"

declare iterate_loop.simps [code]

definition iterate_pagerank :: "corpus \<Rightarrow> real \<Rightarrow> (py_error + real dict) option" where
  "iterate_pagerank corpus d =
     (case init_loop corpus (map fst corpus) [] of
        Inl e \<Rightarrow> Some (Inl e)
      | Inr previous \<Rightarrow> iterate_loop corpus d previous)"

subsection \<open>sample_pagerank\<close>

text \<open>
  Python's \<^verbatim>\<open>random\<close> module is not part of the repository, so the outcomes of its calls
  are a parameter: \<open>rnd k\<close> decides the \<open>k\<close>-th draw, and a draw may return any element
  of its population. \<^verbatim>\<open>random.choice\<close> raises IndexError on an empty list;
  \<^verbatim>\<open>random.choices\<close> raises ValueError when the weights do not match the population or
  their total is not positive.
\<close>

definition random_choice :: "'a list \<Rightarrow> nat \<Rightarrow> py_error + 'a" where
  "random_choice population r =
     (if population = [] then Inl IndexError
      else Inr (population ! (r mod length population)))"

definition random_choices :: "'a list \<Rightarrow> real list \<Rightarrow> nat \<Rightarrow> py_error + 'a" where
  "random_choices population weights r =
     (if length weights \<noteq> length population then Inl ValueError
      else if population = [] then Inl IndexError
      else if sum_list weights \<le> 0 then Inl ValueError
      else Inr (population ! (r mod length population)))"

text \<open>
  The values of \<^verbatim>\<open>result\<close>: integer counters during the walk, floats after the final
  division (\<^verbatim>\<open>/\<close> is true division).
\<close>

datatype num = IntV int | FloatV real

fun num_real :: "num \<Rightarrow> real" where
  "num_real (IntV c) = real_of_int c"
| "num_real (FloatV x) = x"

fun num_incr :: "num \<Rightarrow> num" where
  "num_incr (IntV c) = IntV (c + 1)"
| "num_incr (FloatV x) = FloatV (x + 1)"

definition num_div :: "num \<Rightarrow> int \<Rightarrow> py_error + num" where
  "num_div v n =
     (if n = 0 then Inl ZeroDivisionError else Inr (FloatV (num_real v / real_of_int n)))"

text \<open>\<^verbatim>\<open>for i in corpus: result[i] = 0\<close>\<close>

fun zero_loop :: "page list \<Rightarrow> num dict \<Rightarrow> num dict" where
  "zero_loop [] result = result"
| "zero_loop (i # rest) result = zero_loop rest (dict_set result i (IntV 0))"

text \<open>
  \<^verbatim>\<open>for i in range(n)\<close>: \<open>m\<close> iterations are left, \<open>k\<close> is the index of the next draw.
\<close>

fun sample_loop ::
  "corpus \<Rightarrow> real \<Rightarrow> (nat \<Rightarrow> nat) \<Rightarrow> nat \<Rightarrow> nat \<Rightarrow> page \<Rightarrow> num dict \<Rightarrow> py_error + num dict" where
  "sample_loop corpus d rnd k 0 currentPage result = Inr result"
| "sample_loop corpus d rnd k (Suc m) currentPage result =
     (case dict_get result currentPage of
        Inl e \<Rightarrow> Inl e
      | Inr c \<Rightarrow>
     (case transition_model corpus currentPage d of
        Inl e \<Rightarrow> Inl e
      | Inr moves \<Rightarrow>
     (case random_choices (map fst moves) (map snd moves) (rnd k) of
        Inl e \<Rightarrow> Inl e
      | Inr nextPage \<Rightarrow>
          sample_loop corpus d rnd (Suc k) m nextPage
            (dict_set result currentPage (num_incr c)))))"

text \<open>\<^verbatim>\<open>for i in corpus: result[i] = result[i] / n\<close>\<close>

fun divide_loop :: "int \<Rightarrow> page list \<Rightarrow> num dict \<Rightarrow> py_error + num dict" where
  "divide_loop n [] result = Inr result"
| "divide_loop n (i # rest) result =
     (case dict_get result i of
        Inl e \<Rightarrow> Inl e
      | Inr c \<Rightarrow>
     (case num_div c n of
        Inl e \<Rightarrow> Inl e
      | Inr q \<Rightarrow> divide_loop n rest (dict_set result i q)))"

definition sample_pagerank ::
  "corpus \<Rightarrow> real \<Rightarrow> int \<Rightarrow> (nat \<Rightarrow> nat) \<Rightarrow> py_error + num dict" where
  "sample_pagerank corpus d n rnd =
     (case random_choice (map fst corpus) (rnd 0) of
        Inl e \<Rightarrow> Inl e
      | Inr currentPage \<Rightarrow>
     (case sample_loop corpus d rnd 1 (nat n) currentPage (zero_loop (map fst corpus) []) of
        Inl e \<Rightarrow> Inl e
      | Inr result \<Rightarrow> divide_loop n (map fst corpus) result))"

subsection \<open>The same code in floating-point arithmetic\<close>




text \<open>
  \<open>transition_model\<close> and \<open>sample_pagerank\<close> with the result of every float operation
  rounded by \<open>fl\<close>: \<open>round_double\<close> for the program as it runs, the identity for the
  definitions above. A length is below \<open>2 ^ 53\<close>, so its conversion to a float is exact;
  the division of two integers in \<^verbatim>\<open>result[i] / n\<close> returns the float nearest to the
  quotient. \<^verbatim>\<open>random.choices\<close> adds the weights up from left to right, in floats, and
  raises ValueError when the total is not positive.
\<close>

definition py_div_fl :: "(real \<Rightarrow> real) \<Rightarrow> real \<Rightarrow> real \<Rightarrow> py_error + real" where
  "py_div_fl fl a b = (if b = 0 then Inl ZeroDivisionError else Inr (fl (a / b)))"

fun link_loop_fl ::
  "(real \<Rightarrow> real) \<Rightarrow> page \<Rightarrow> real \<Rightarrow> page list \<Rightarrow> page list \<Rightarrow> real \<Rightarrow> py_error + real" where
  "link_loop_fl fl p d links [] initual = Inr initual"
| "link_loop_fl fl p d links (i # rest) initual =
     (if p = i then
        (case py_div_fl fl d (real (length links)) of
           Inl e \<Rightarrow> Inl e
         | Inr q \<Rightarrow> link_loop_fl fl p d links rest (fl (initual + q)))
      else link_loop_fl fl p d links rest initual)"

definition page_weight_fl ::
  "(real \<Rightarrow> real) \<Rightarrow> corpus \<Rightarrow> page \<Rightarrow> real \<Rightarrow> page \<Rightarrow> py_error + real" where
  "page_weight_fl fl corpus page d p =
     (case py_div_fl fl (fl (1 - d)) (real (length corpus)) of
        Inl e \<Rightarrow> Inl e
      | Inr initual \<Rightarrow>
     (case dict_get corpus page of
        Inl e \<Rightarrow> Inl e
      | Inr links \<Rightarrow>
     (case link_loop_fl fl p d links links initual of
        Inl e \<Rightarrow> Inl e
      | Inr initual' \<Rightarrow>
     (if length links = 0 then
        (case py_div_fl fl d (real (length corpus)) of
           Inl e \<Rightarrow> Inl e
         | Inr q \<Rightarrow> Inr (fl (initual' + q)))
      else Inr initual'))))"

fun transition_loop_fl ::
  "(real \<Rightarrow> real) \<Rightarrow> corpus \<Rightarrow> page \<Rightarrow> real \<Rightarrow> page list \<Rightarrow> real dict \<Rightarrow> py_error + real dict" where
  "transition_loop_fl fl corpus page d [] result = Inr result"
| "transition_loop_fl fl corpus page d (p # ps) result =
     (case page_weight_fl fl corpus page d p of
        Inl e \<Rightarrow> Inl e
      | Inr w \<Rightarrow> transition_loop_fl fl corpus page d ps (dict_set result p w))"

definition transition_model_fl ::
  "(real \<Rightarrow> real) \<Rightarrow> corpus \<Rightarrow> page \<Rightarrow> real \<Rightarrow> py_error + real dict" where
  "transition_model_fl fl corpus page d =
     transition_loop_fl fl corpus page d (map fst corpus) []"

fun accumulate_total :: "(real \<Rightarrow> real) \<Rightarrow> real list \<Rightarrow> real" where
  "accumulate_total fl [] = 0"
| "accumulate_total fl (w # ws) = foldl (\<lambda>total x. fl (total + x)) w ws"

definition random_choices_fl :: "(real \<Rightarrow> real) \<Rightarrow> 'a list \<Rightarrow> real list \<Rightarrow> nat \<Rightarrow> py_error + 'a" where
  "random_choices_fl fl population weights r =
     (if length weights \<noteq> length population then Inl ValueError
      else if population = [] then Inl IndexError
      else if accumulate_total fl weights \<le> 0 then Inl ValueError
      else Inr (population ! (r mod length population)))"

definition num_div_fl :: "(real \<Rightarrow> real) \<Rightarrow> num \<Rightarrow> int \<Rightarrow> py_error + num" where
  "num_div_fl fl v n =
     (if n = 0 then Inl ZeroDivisionError
      else Inr (FloatV (fl (num_real v / real_of_int n))))"

fun sample_loop_fl ::
  "(real \<Rightarrow> real) \<Rightarrow> corpus \<Rightarrow> real \<Rightarrow> (nat \<Rightarrow> nat) \<Rightarrow> nat \<Rightarrow> nat \<Rightarrow> page \<Rightarrow> num dict \<Rightarrow>
   py_error + num dict" where
  "sample_loop_fl fl corpus d rnd k 0 currentPage result = Inr result"
| "sample_loop_fl fl corpus d rnd k (Suc m) currentPage result =
     (case dict_get result currentPage of
        Inl e \<Rightarrow> Inl e
      | Inr c \<Rightarrow>
     (case transition_model_fl fl corpus currentPage d of
        Inl e \<Rightarrow> Inl e
      | Inr moves \<Rightarrow>
     (case random_choices_fl fl (map fst moves) (map snd moves) (rnd k) of
        Inl e \<Rightarrow> Inl e
      | Inr nextPage \<Rightarrow>
          sample_loop_fl fl corpus d rnd (Suc k) m nextPage
            (dict_set result currentPage (num_incr c)))))"

fun divide_loop_fl :: "(real \<Rightarrow> real) \<Rightarrow> int \<Rightarrow> page list \<Rightarrow> num dict \<Rightarrow> py_error + num dict" where
  "divide_loop_fl fl n [] result = Inr result"
| "divide_loop_fl fl n (i # rest) result =
     (case dict_get result i of
        Inl e \<Rightarrow> Inl e
      | Inr c \<Rightarrow>
     (case num_div_fl fl c n of
        Inl e \<Rightarrow> Inl e
      | Inr q \<Rightarrow> divide_loop_fl fl n rest (dict_set result i q)))"

definition sample_pagerank_fl ::
  "(real \<Rightarrow> real) \<Rightarrow> corpus \<Rightarrow> real \<Rightarrow> int \<Rightarrow> (nat \<Rightarrow> nat) \<Rightarrow> py_error + num dict" where
  "sample_pagerank_fl fl corpus d n rnd =
     (case random_choice (map fst corpus) (rnd 0) of
        Inl e \<Rightarrow> Inl e
      | Inr currentPage \<Rightarrow>
     (case sample_loop_fl fl corpus d rnd 1 (nat n) currentPage (zero_loop (map fst corpus) []) of
        Inl e \<Rightarrow> Inl e
      | Inr result \<Rightarrow> divide_loop_fl fl n (map fst corpus) result))"

section \<open>Reference definitions and example inputs\<close>

text \<open>The value that one run of the outer loop body of \<open>transition_model\<close> stores for \<open>p\<close>.\<close>

definition weight_value :: "corpus \<Rightarrow> page list \<Rightarrow> real \<Rightarrow> page \<Rightarrow> real" where
  "weight_value corpus links d p =
     (1 - d) / real (length corpus)
     + real (count_list links p) * (d / real (length links))
     + (if links = [] then d / real (length corpus) else 0)"


text \<open>The three-page corpus of the specification's scenario.\<close>

definition corpus3 :: corpus where
  "corpus3 = [(''1.html'', [''2.html'']), (''2.html'', [''1.html'', ''3.html'']), (''3.html'', [''2.html''])]"

text \<open>
  A well-formed corpus on which the in-place update and the sign of the rank change matter:
  \<open>a\<close> and \<open>b\<close> link to \<open>c\<close>, and \<open>c\<close> links to \<open>a\<close>. \<open>ranksA\<close> is the dictionary
  that \<open>iterate_pagerank\<close> starts from on it.
\<close>

definition cA :: corpus where
  "cA = [(''a.html'', [''c.html'']), (''b.html'', [''c.html'']), (''c.html'', [''a.html''])]"

definition ranksA :: "real dict" where
  "ranksA = [(''a.html'', 1 / 3), (''b.html'', 1 / 3), (''c.html'', 1 / 3)]"

text \<open>
  The pass as the specification words it (synchronous update): every new rank is computed
  from the same snapshot of the previous ranks, and only then the ranks are replaced.
\<close>

fun sync_loop :: "corpus \<Rightarrow> real \<Rightarrow> real dict \<Rightarrow> page list \<Rightarrow> real dict \<Rightarrow> py_error + real dict" where
  "sync_loop corpus d snapshot [] ranks = Inr ranks"
| "sync_loop corpus d snapshot (i # rest) ranks =
     (case new_rank corpus d snapshot i of
        Inl e \<Rightarrow> Inl e
      | Inr newRank \<Rightarrow> sync_loop corpus d snapshot rest (dict_set ranks i newRank))"

definition synchronous_pass :: "corpus \<Rightarrow> real \<Rightarrow> real dict \<Rightarrow> py_error + real dict" where
  "synchronous_pass corpus d previous = sync_loop corpus d previous (map fst corpus) previous"

text \<open>
  The while loop of \<open>iterate_pagerank\<close> cut off after \<open>k\<close> passes: \<open>None\<close> when the loop
  has not left by then.
\<close>

fun run_passes :: "nat \<Rightarrow> corpus \<Rightarrow> real \<Rightarrow> real dict \<Rightarrow> (py_error + real dict) option" where
  "run_passes 0 corpus d previous = None"
| "run_passes (Suc k) corpus d previous =
     (case pass_loop corpus d (map fst corpus) (0, previous) of
        Inl e \<Rightarrow> Some (Inl e)
      | Inr (check, previous') \<Rightarrow>
          if check = length corpus then Some (normalize previous')
          else run_passes k corpus d previous')"

text \<open>
  The two-page corpus of the specification's sink scenario (\<open>a\<close> has no links, \<open>b\<close> links
  to \<open>a\<close>) and the single-page corpus.
\<close>

definition cS :: corpus where
  "cS = [(''a.html'', []), (''b.html'', [''a.html''])]"

definition c1 :: corpus where
  "c1 = [(''a.html'', [])]"


text \<open>
  The same argument given twice: the same keys in the same insertion order (the order in
  which they are visited), and under each key the same set. The order in which a set
  lists its elements is not part of its value (it depends on the hash seed of the run).
\<close>

definition same_graph :: "corpus \<Rightarrow> corpus \<Rightarrow> bool" where
  "same_graph corpus corpus' \<longleftrightarrow>
     list_all2 (\<lambda>kv kv'. fst kv = fst kv' \<and> set (snd kv) = set (snd kv')) corpus corpus'"

text \<open>The scenario corpus with the out-set of \<open>2.html\<close> listed in the other order.\<close>

definition corpus3' :: corpus where
  "corpus3' = [(''1.html'', [''2.html'']), (''2.html'', [''3.html'', ''1.html'']), (''3.html'', [''2.html''])]"

text \<open>
  The incoming sum as the specification words it: a page that links to \<open>i\<close> adds its rank
  divided by the size of its out-set, and a page with an empty out-set adds its rank
  divided by \<open>N\<close>, for every page \<open>i\<close>.
\<close>

fun spec_sum_loop ::
  "corpus \<Rightarrow> real dict \<Rightarrow> page \<Rightarrow> page list \<Rightarrow> real \<Rightarrow> py_error + real" where
  "spec_sum_loop corpus previous i [] sum_Iteration = Inr sum_Iteration"
| "spec_sum_loop corpus previous i (p # rest) sum_Iteration =
     (case dict_get corpus p of
        Inl e \<Rightarrow> Inl e
      | Inr links \<Rightarrow>
     (case dict_get previous p of
        Inl e \<Rightarrow> Inl e
      | Inr r \<Rightarrow>
          if links = [] then
            spec_sum_loop corpus previous i rest (sum_Iteration + r / real (length corpus))
          else if i \<in> set links then
            spec_sum_loop corpus previous i rest (sum_Iteration + r / real (length links))
          else spec_sum_loop corpus previous i rest sum_Iteration))"

definition spec_new_rank :: "corpus \<Rightarrow> real \<Rightarrow> real dict \<Rightarrow> page \<Rightarrow> py_error + real" where
  "spec_new_rank corpus d previous i =
     (case spec_sum_loop corpus previous i (map fst corpus) 0 of
        Inl e \<Rightarrow> Inl e
      | Inr sum_Iteration \<Rightarrow> Inr ((1 - d) / real (length corpus) + d * sum_Iteration))"









section \<open>Properties\<close>

subsection \<open>The transition model\<close>

lemma dict_get_Some: "map_of m k = Some v \<Longrightarrow> dict_get m k = Inr v"
  by (simp add: dict_get_def)

lemma dict_get_key: "k \<in> set (map fst m) \<Longrightarrow> \<exists>v. dict_get m k = Inr v \<and> map_of m k = Some v"
  by (cases "map_of m k") (auto simp: dict_get_def map_of_eq_None_iff)

lemma dict_set_fresh: "k \<notin> set (map fst m) \<Longrightarrow> dict_set m k v = m @ [(k, v)]"
  by (induction m) auto

lemma link_loop_count:
  "links \<noteq> [] \<or> rest = [] \<Longrightarrow>
   link_loop p d links rest initual =
     Inr (initual + real (count_list rest p) * (d / real (length links)))"
proof (induction rest arbitrary: initual)
  case Nil
  then show ?case by simp
next
  case (Cons i rest)
  then have ne: "links \<noteq> []" by simp
  show ?case
  proof (cases "p = i")
    case True
    then show ?thesis using ne Cons.IH [of "initual + d / real (length links)"]
      by (simp add: py_div_def distrib_right add_divide_distrib)
  next
    case False
    then show ?thesis using ne Cons.IH [of initual] by simp
  qed
qed


lemma page_weight_value:
  assumes "map_of corpus page = Some links"
  shows "page_weight corpus page d p = Inr (weight_value corpus links d p)"
proof -
  from assms have ne: "corpus \<noteq> []" by auto
  have g: "dict_get corpus page = Inr links" using assms by (rule dict_get_Some)
  have l: "link_loop p d links links ((1 - d) / real (length corpus)) =
      Inr ((1 - d) / real (length corpus) + real (count_list links p) * (d / real (length links)))"
    by (rule link_loop_count) auto
  show ?thesis using ne
    by (simp add: page_weight_def py_div_def g l weight_value_def)
qed




lemma dict_ok_out: "dict_ok corpus \<Longrightarrow> map_of corpus page = Some out \<Longrightarrow> distinct out"
  by (auto simp: dict_ok_def list_all_iff dest: map_of_SomeD)






lemma link_loop_total:
  "links \<noteq> [] \<or> rest = [] \<Longrightarrow> \<exists>v. link_loop p d links rest initual = Inr v"
  by (simp add: link_loop_count)

lemma page_weight_total:
  assumes "page \<in> set (map fst corpus)"
  shows "\<exists>w. page_weight corpus page d p = Inr w"
proof -
  from assms obtain out where "map_of corpus page = Some out"
    using dict_get_key by blast
  then show ?thesis by (simp add: page_weight_value)
qed

lemma transition_loop_total:
  assumes "page \<in> set (map fst corpus)"
  shows "\<exists>r. transition_loop corpus page d ps result = Inr r"
proof (induction ps arbitrary: result)
  case Nil
  show ?case by simp
next
  case (Cons p ps)
  obtain w where w: "page_weight corpus page d p = Inr w"
    using page_weight_total [OF assms] by blast
  show ?case using Cons.IH [of "dict_set result p w"] by (simp add: w)
qed

text \<open>
  Claim C10. On a non-empty corpus whose out-sets only name keys, and for a page that is
  a key, \<open>transition_model\<close> returns a dictionary for every damping factor: no
  ZeroDivisionError (it divides by the size of the out-set only inside the loop over a
  non-empty out-set, and by \<open>N\<close> only inside the loop over a non-empty corpus) and no
  KeyError.
\<close>

theorem transition_model_total:
  assumes "corpus \<noteq> []" and "links_closed corpus" and "page \<in> set (map fst corpus)"
  shows "\<exists>r. transition_model corpus page d = Inr r"
  unfolding transition_model_def using assms(3) by (rule transition_loop_total)

theorem transition_model_total_witness:
  "\<exists>r. transition_model corpus3 ''3.html'' DAMPING = Inr r"
  by (rule transition_model_total) (simp_all add: corpus3_def links_closed_def)

subsection \<open>One pass of the iteration updates the ranks in place\<close>

lemma map_of_dict_set: "map_of (dict_set m k v) = (map_of m)(k \<mapsto> v)"
  by (induction m) (auto simp: fun_eq_iff)

lemma keys_dict_set: "k \<in> set (map fst m) \<Longrightarrow> map fst (dict_set m k v) = map fst m"
  by (induction m) force+

lemma dict_get_dict_set:
  "dict_get (dict_set m k v) k' = (if k' = k then Inr v else dict_get m k')"
  by (simp add: dict_get_def map_of_dict_set)

lemma pass_loop_append:
  "pass_loop corpus d (xs @ ys) st =
     (case pass_loop corpus d xs st of Inl e \<Rightarrow> Inl e | Inr st' \<Rightarrow> pass_loop corpus d ys st')"
proof (induction xs arbitrary: st)
  case Nil
  show ?case by (cases st) simp
next
  case (Cons x xs)
  obtain check previous where st: "st = (check, previous)" by (cases st)
  show ?case unfolding st by (simp add: Cons.IH split: sum.splits)
qed

lemma pass_loop_other:
  "pass_loop corpus d xs (check, previous) = Inr (check', previous') \<Longrightarrow> x \<notin> set xs \<Longrightarrow>
   dict_get previous' x = dict_get previous x"
proof (induction xs arbitrary: check previous)
  case Nil
  then show ?case by simp
next
  case (Cons i rest)
  from Cons.prems(1) obtain current old where
    "new_rank corpus d previous i = Inr current" "dict_get previous i = Inr old"
    and rest: "pass_loop corpus d rest
       (if check_page old current then check + 1 else check, dict_set previous i current)
       = Inr (check', previous')"
    by (auto split: sum.splits)
  from Cons.IH [OF rest] Cons.prems(2)
  show ?case by (simp add: dict_get_dict_set)
qed

text \<open>
  Claim C3, as amended. A pass writes \<open>previous_Iteration\<close> in place, page by page in corpus
  order: the new rank of the \<open>k\<close>-th page is computed from the dictionary \<open>mid\<close> reached
  after the first \<open>k\<close> pages, which already holds the new ranks of the pages before it and
  still holds the previous ranks of the \<open>k\<close>-th page and the pages after it.
\<close>

theorem pass_loop_in_place:
  assumes "distinct (map fst corpus)" and "k < length corpus"
    and "pass_loop corpus d (map fst corpus) (0, previous) = Inr (check, previous')"
  shows "\<exists>chk mid.
     pass_loop corpus d (take k (map fst corpus)) (0, previous) = Inr (chk, mid)
   \<and> new_rank corpus d mid (map fst corpus ! k) = dict_get previous' (map fst corpus ! k)
   \<and> (\<forall>j<k. dict_get mid (map fst corpus ! j) = dict_get previous' (map fst corpus ! j))
   \<and> (\<forall>j<length corpus. k \<le> j \<longrightarrow>
         dict_get mid (map fst corpus ! j) = dict_get previous (map fst corpus ! j))"
proof -
  let ?keys = "map fst corpus"
  let ?i = "?keys ! k"
  have k: "k < length ?keys" using assms(2) by simp
  have split: "?keys = take k ?keys @ ?i # drop (Suc k) ?keys"
    using k by (rule id_take_nth_drop)
  have "pass_loop corpus d (take k ?keys @ ?i # drop (Suc k) ?keys) (0, previous)
      = Inr (check, previous')"
    using assms(3) split by simp
  then obtain chk mid where
    mid: "pass_loop corpus d (take k ?keys) (0, previous) = Inr (chk, mid)"
    and tl: "pass_loop corpus d (?i # drop (Suc k) ?keys) (chk, mid) = Inr (check, previous')"
    unfolding pass_loop_append by (auto split: sum.splits)
  from tl obtain current old where
    cur: "new_rank corpus d mid ?i = Inr current" and "dict_get mid ?i = Inr old"
    and rest: "pass_loop corpus d (drop (Suc k) ?keys)
       (if check_page old current then chk + 1 else chk, dict_set mid ?i current)
       = Inr (check, previous')"
    by (auto split: sum.splits)
  have dist: "distinct (take k ?keys @ ?i # drop (Suc k) ?keys)"
    using assms(1) split by simp
  have notin_rest: "?i \<notin> set (drop (Suc k) ?keys)" using dist by auto
  have "dict_get previous' ?i = dict_get (dict_set mid ?i current) ?i"
    using rest notin_rest by (rule pass_loop_other)
  then have new: "new_rank corpus d mid ?i = dict_get previous' ?i"
    by (simp add: cur dict_get_dict_set)
  have before: "dict_get mid (?keys ! j) = dict_get previous' (?keys ! j)" if "j < k" for j
  proof -
    have mem: "?keys ! j \<in> set (take k ?keys)"
      using that k by (auto simp: in_set_conv_nth intro!: exI [of _ j])
    then have ne: "?keys ! j \<noteq> ?i" and nr: "?keys ! j \<notin> set (drop (Suc k) ?keys)"
      using dist by auto
    have "dict_get previous' (?keys ! j) = dict_get (dict_set mid ?i current) (?keys ! j)"
      using rest nr by (rule pass_loop_other)
    then show ?thesis using ne by (simp add: dict_get_dict_set)
  qed
  have after: "dict_get mid (?keys ! j) = dict_get previous (?keys ! j)"
    if "j < length corpus" "k \<le> j" for j
  proof -
    have "?keys ! j \<in> set (drop k ?keys)"
      using that by (auto simp: in_set_conv_nth intro!: exI [of _ "j - k"])
    moreover have "set (take k ?keys) \<inter> set (drop k ?keys) = {}"
      using assms(1) by (metis append_take_drop_id distinct_append)
    ultimately have "?keys ! j \<notin> set (take k ?keys)" by auto
    with mid show ?thesis by (rule pass_loop_other)
  qed
  show ?thesis using mid new before after by blast
qed

text \<open>
  The claim as stated fails on \<open>cA\<close>: in the first pass the code computes the rank of
  \<open>c.html\<close> from the new rank of \<open>b.html\<close>, and the synchronous pass gives another value.
\<close>

theorem synchronous_pass_counterexample:
  "init_loop cA (map fst cA) [] = Inr ranksA
   \<and> pass_loop cA DAMPING (map fst cA) (0, ranksA) =
     Inr (2, [(''a.html'', 1 / 3), (''b.html'', 1 / 20), (''c.html'', 451 / 1200)])
   \<and> synchronous_pass cA DAMPING ranksA =
     Inr [(''a.html'', 1 / 3), (''b.html'', 1 / 20), (''c.html'', 37 / 60)]
   \<and> synchronous_pass cA DAMPING ranksA \<noteq>
     Inr [(''a.html'', 1 / 3), (''b.html'', 1 / 20), (''c.html'', 451 / 1200)]"
  by (simp add: cA_def ranksA_def DAMPING_def synchronous_pass_def new_rank_def py_div_def
      dict_get_def check_page_def)

theorem pass_loop_in_place_witness:
  "\<exists>chk mid.
     pass_loop cA DAMPING (take 2 (map fst cA)) (0, ranksA) = Inr (chk, mid)
   \<and> new_rank cA DAMPING mid (map fst cA ! 2) = Inr (451 / 1200)
   \<and> (\<forall>j<2. dict_get mid (map fst cA ! j) =
         dict_get [(''a.html'', 1 / 3), (''b.html'', 1 / 20), (''c.html'', 451 / 1200)]
           (map fst cA ! j))
   \<and> (\<forall>j<length cA. 2 \<le> j \<longrightarrow> dict_get mid (map fst cA ! j) = dict_get ranksA (map fst cA ! j))"
proof -
  have d: "distinct (map fst cA)" by (simp add: cA_def)
  have k: "2 < length cA" by (simp add: cA_def)
  have p: "pass_loop cA DAMPING (map fst cA) (0, ranksA) =
     Inr (2, [(''a.html'', 1 / 3), (''b.html'', 1 / 20), (''c.html'', 451 / 1200)])"
    by (simp add: cA_def ranksA_def DAMPING_def new_rank_def py_div_def dict_get_def
        check_page_def)
  have g: "dict_get [(''a.html'', 1 / 3), (''b.html'', 1 / 20), (''c.html'', 451 / 1200 :: real)]
     (map fst cA ! 2) = Inr (451 / 1200)"
    by (simp add: cA_def dict_get_def)
  show ?thesis using pass_loop_in_place [OF d k p] unfolding g .
qed

subsection \<open>The while loop and its cut-off copies\<close>

lemma run_passes_returns:
  "run_passes k corpus d previous = Some r \<Longrightarrow> iterate_loop corpus d previous = Some r"
proof (induction k arbitrary: previous)
  case 0
  then show ?case by simp
next
  case (Suc k)
  show ?case
  proof (cases "pass_loop corpus d (map fst corpus) (0, previous)")
    case (Inl e)
    then show ?thesis using Suc.prems by (subst iterate_loop.simps) simp
  next
    case (Inr st)
    obtain check previous' where st: "st = (check, previous')" by (cases st)
    show ?thesis
    proof (cases "check = length corpus")
      case True
      then show ?thesis using Suc.prems Inr st by (subst iterate_loop.simps) simp
    next
      case False
      then have "run_passes k corpus d previous' = Some r" using Suc.prems Inr st by simp
      then have "iterate_loop corpus d previous' = Some r" by (rule Suc.IH)
      then show ?thesis using Inr st False by (subst iterate_loop.simps) simp
    qed
  qed
qed

lemma returns_run_passes:
  assumes "iterate_loop corpus d previous = Some r"
  shows "\<exists>k. run_passes k corpus d previous = Some r"
proof (rule iterate_loop.raw_induct
    [where P = "\<lambda>corpus d previous r. \<exists>k. run_passes k corpus d previous = Some r", OF _ assms])
  fix f :: "corpus \<Rightarrow> real \<Rightarrow> real dict \<Rightarrow> (py_error + real dict) option"
    and corpus d previous r
  assume IH: "\<And>corpus d previous r. f corpus d previous = Some r \<Longrightarrow>
      \<exists>k. run_passes k corpus d previous = Some r"
  assume body: "(case pass_loop corpus d (map fst corpus) (0, previous) of
      Inl e \<Rightarrow> Some (Inl e)
    | Inr (check, previous') \<Rightarrow>
        if check = length corpus then Some (normalize previous')
        else f corpus d previous') = Some r"
  show "\<exists>k. run_passes k corpus d previous = Some r"
  proof (cases "pass_loop corpus d (map fst corpus) (0, previous)")
    case (Inl e)
    then have "run_passes (Suc 0) corpus d previous = Some r" using body by simp
    then show ?thesis ..
  next
    case (Inr st)
    obtain check previous' where st: "st = (check, previous')" by (cases st)
    show ?thesis
    proof (cases "check = length corpus")
      case True
      then have "run_passes (Suc 0) corpus d previous = Some r" using body Inr st by simp
      then show ?thesis ..
    next
      case False
      then have "f corpus d previous' = Some r" using body Inr st by simp
      then obtain k where "run_passes k corpus d previous' = Some r" using IH by blast
      then have "run_passes (Suc k) corpus d previous = Some r" using Inr st False by simp
      then show ?thesis ..
    qed
  qed
qed

lemma iterate_loop_Some_iff:
  "iterate_loop corpus d previous = Some r \<longleftrightarrow> (\<exists>k. run_passes k corpus d previous = Some r)"
  using run_passes_returns returns_run_passes by blast

lemma iterate_loop_None_iff:
  "iterate_loop corpus d previous = None \<longleftrightarrow> (\<forall>k. run_passes k corpus d previous = None)"
proof
  assume n: "iterate_loop corpus d previous = None"
  show "\<forall>k. run_passes k corpus d previous = None"
  proof
    fix k
    show "run_passes k corpus d previous = None"
    proof (cases "run_passes k corpus d previous")
      case None
      then show ?thesis .
    next
      case (Some r')
      then have "iterate_loop corpus d previous = Some r'" by (rule run_passes_returns)
      with n show ?thesis by simp
    qed
  qed
next
  assume n: "\<forall>k. run_passes k corpus d previous = None"
  show "iterate_loop corpus d previous = None"
  proof (cases "iterate_loop corpus d previous")
    case None
    then show ?thesis .
  next
    case (Some r')
    then obtain k where "run_passes k corpus d previous = Some r'"
      using returns_run_passes by blast
    with n show ?thesis by simp
  qed
qed




subsection \<open>The convergence test and the sink pages of the iteration\<close>


text \<open>
  Claim C1 (the code departs from it). The test of the code is \<open>previous - current \<le> 0.001\<close>
  without the absolute value, so a rank that grows by any amount passes it. On \<open>cA\<close> with
  the default damping factor the second pass counts all three pages although the rank of
  \<open>a.html\<close> moved by more than 0.036, and the loop returns after that pass.
\<close>

theorem iterate_pagerank_stops_early:
  "pass_loop cA DAMPING (map fst cA)
     (0, [(''a.html'', 1 / 3), (''b.html'', 1 / 20), (''c.html'', 451 / 1200)]) =
     Inr (3, [(''a.html'', 8867 / 24000), (''b.html'', 1 / 20), (''c.html'', 195139 / 480000)])
   \<and> check_page (1 / 3) (8867 / 24000)
   \<and> \<not> \<bar>1 / 3 - 8867 / 24000 :: real\<bar> \<le> 1 / 1000
   \<and> iterate_pagerank cA DAMPING =
     Some (Inr [(''a.html'', 177340 / 396479), (''b.html'', 24000 / 396479),
                (''c.html'', 195139 / 396479)])"
proof -
  have i: "init_loop cA (map fst cA) [] = Inr ranksA"
    by (simp add: cA_def ranksA_def py_div_def)
  have p1: "pass_loop cA DAMPING (map fst cA) (0, ranksA) =
      Inr (2, [(''a.html'', 1 / 3), (''b.html'', 1 / 20), (''c.html'', 451 / 1200)])"
    by (simp add: cA_def ranksA_def DAMPING_def new_rank_def py_div_def dict_get_def
        check_page_def)
  have p2: "pass_loop cA DAMPING (map fst cA)
      (0, [(''a.html'', 1 / 3), (''b.html'', 1 / 20), (''c.html'', 451 / 1200)]) =
      Inr (3, [(''a.html'', 8867 / 24000), (''b.html'', 1 / 20), (''c.html'', 195139 / 480000)])"
    by (simp add: cA_def DAMPING_def new_rank_def py_div_def dict_get_def check_page_def)
  have l: "length cA = 3" by (simp add: cA_def)
  have n: "normalize [(''a.html'', 8867 / 24000), (''b.html'', 1 / 20), (''c.html'', 195139 / 480000)]
      = Inr [(''a.html'', 177340 / 396479), (''b.html'', 24000 / 396479),
             (''c.html'', 195139 / 396479)]"
    by (simp add: normalize_def py_div_def dict_get_def)
  have "run_passes (Suc (Suc 0)) cA DAMPING ranksA =
      Some (Inr [(''a.html'', 177340 / 396479), (''b.html'', 24000 / 396479),
                 (''c.html'', 195139 / 396479)])"
    by (simp add: p1 p2 l n)
  then have "iterate_loop cA DAMPING ranksA =
      Some (Inr [(''a.html'', 177340 / 396479), (''b.html'', 24000 / 396479),
                 (''c.html'', 195139 / 396479)])"
    by (rule run_passes_returns)
  then show ?thesis using p2 by (simp add: iterate_pagerank_def i check_page_def)
qed

lemma dict_get_dict_set_other:
  "q \<noteq> p \<Longrightarrow> dict_get (dict_set previous p r) q = dict_get previous q"
  by (simp add: dict_get_def map_of_dict_set)

lemma sum_loop_sink:
  "dict_get corpus p = Inr [] \<Longrightarrow>
   sum_loop corpus (dict_set previous p r) i ps s = sum_loop corpus previous i ps s"
proof (induction ps arbitrary: s)
  case Nil
  show ?case by simp
next
  case (Cons q ps)
  show ?case
  proof (cases "q = p")
    case True
    then show ?thesis using Cons by simp
  next
    case False
    then show ?thesis using Cons
      by (simp add: dict_get_dict_set_other split: sum.splits)
  qed
qed

lemma cS_iterate:
  "iterate_pagerank cS DAMPING = Some (Inr [(''a.html'', 37 / 57), (''b.html'', 20 / 57)])"
proof -
  have i: "init_loop cS (map fst cS) [] = Inr [(''a.html'', 1 / 2), (''b.html'', 1 / 2)]"
    by (simp add: cS_def py_div_def)
  have p1: "pass_loop cS DAMPING (map fst cS) (0, [(''a.html'', 1 / 2), (''b.html'', 1 / 2)]) =
      Inr (1, [(''a.html'', 1 / 2), (''b.html'', 3 / 40)])"
    by (simp add: cS_def DAMPING_def new_rank_def py_div_def dict_get_def check_page_def)
  have p2: "pass_loop cS DAMPING (map fst cS) (0, [(''a.html'', 1 / 2), (''b.html'', 3 / 40)]) =
      Inr (1, [(''a.html'', 111 / 800), (''b.html'', 3 / 40)])"
    by (simp add: cS_def DAMPING_def new_rank_def py_div_def dict_get_def check_page_def)
  have p3: "pass_loop cS DAMPING (map fst cS) (0, [(''a.html'', 111 / 800), (''b.html'', 3 / 40)]) =
      Inr (2, [(''a.html'', 111 / 800), (''b.html'', 3 / 40)])"
    by (simp add: cS_def DAMPING_def new_rank_def py_div_def dict_get_def check_page_def)
  have l: "length cS = 2" by (simp add: cS_def)
  have n: "normalize [(''a.html'', 111 / 800), (''b.html'', 3 / 40)]
      = Inr [(''a.html'', 37 / 57), (''b.html'', 20 / 57)]"
    by (simp add: normalize_def py_div_def dict_get_def)
  have "run_passes (Suc (Suc (Suc 0))) cS DAMPING [(''a.html'', 1 / 2), (''b.html'', 1 / 2)] =
      Some (Inr [(''a.html'', 37 / 57), (''b.html'', 20 / 57)])"
    by (simp add: p1 p2 p3 l n)
  then have "iterate_loop cS DAMPING [(''a.html'', 1 / 2), (''b.html'', 1 / 2)] =
      Some (Inr [(''a.html'', 37 / 57), (''b.html'', 20 / 57)])"
    by (rule run_passes_returns)
  then show ?thesis using i by (simp add: iterate_pagerank_def)
qed

text \<open>
  The claim C2 as stated fails. On \<open>cS\<close> with both ranks 1/2, the update of the code gives
  \<open>b.html\<close> the rank 3/40 and \<open>a.html\<close> the rank 1/2: the sink \<open>a.html\<close> has added nothing
  to either sum. The update that the claim words gives 23/80 and 57/80.
\<close>

theorem sink_update_counterexample:
  "new_rank cS DAMPING [(''a.html'', 1 / 2), (''b.html'', 1 / 2)] ''b.html'' = Inr (3 / 40)
   \<and> spec_new_rank cS DAMPING [(''a.html'', 1 / 2), (''b.html'', 1 / 2)] ''b.html'' = Inr (23 / 80)
   \<and> new_rank cS DAMPING [(''a.html'', 1 / 2), (''b.html'', 1 / 2)] ''a.html'' = Inr (1 / 2)
   \<and> spec_new_rank cS DAMPING [(''a.html'', 1 / 2), (''b.html'', 1 / 2)] ''a.html'' = Inr (57 / 80)"
  by (simp add: cS_def DAMPING_def new_rank_def spec_new_rank_def py_div_def dict_get_def)

text \<open>
  Claim C2, as amended. In the update step a page with an empty out-set contributes
  nothing: the new rank of every page is the same whatever rank the sink holds. The rank
  that the sinks hold is dropped in every pass, and the ranks add up to 1 again only through
  the division by their sum at the end. On the sink scenario \<open>cS\<close> the returned ranks are
  37/57 and 20/57, which the update of the specification leaves unchanged.
\<close>

theorem new_rank_ignores_sinks:
  "(dict_get corpus p = Inr [] \<longrightarrow>
      new_rank corpus d (dict_set previous p r) i = new_rank corpus d previous i)
   \<and> iterate_pagerank cS DAMPING = Some (Inr [(''a.html'', 37 / 57), (''b.html'', 20 / 57)])
   \<and> spec_new_rank cS DAMPING [(''a.html'', 37 / 57), (''b.html'', 20 / 57)] ''a.html''
       = Inr (37 / 57)
   \<and> spec_new_rank cS DAMPING [(''a.html'', 37 / 57), (''b.html'', 20 / 57)] ''b.html''
       = Inr (20 / 57)"
proof -
  have "new_rank corpus d (dict_set previous p r) i = new_rank corpus d previous i"
    if "dict_get corpus p = Inr []"
    using that by (simp add: new_rank_def sum_loop_sink cong: sum.case_cong)
  moreover have "spec_new_rank cS DAMPING [(''a.html'', 37 / 57), (''b.html'', 20 / 57)] ''a.html''
      = Inr (37 / 57)"
    by (simp add: cS_def DAMPING_def spec_new_rank_def dict_get_def)
  moreover have "spec_new_rank cS DAMPING [(''a.html'', 37 / 57), (''b.html'', 20 / 57)] ''b.html''
      = Inr (20 / 57)"
    by (simp add: cS_def DAMPING_def spec_new_rank_def dict_get_def)
  ultimately show ?thesis using cS_iterate by blast
qed

theorem new_rank_ignores_sinks_witness:
  "dict_get cS ''a.html'' = Inr []
   \<and> new_rank cS DAMPING [(''a.html'', 7), (''b.html'', 1 / 2)] ''b.html''
     = new_rank cS DAMPING [(''a.html'', 1 / 2), (''b.html'', 1 / 2)] ''b.html''"
  using new_rank_ignores_sinks
    [of cS "''a.html''" DAMPING "[(''a.html'', 1 / 2), (''b.html'', 1 / 2)]" 7 "''b.html''"]
  by (simp add: cS_def dict_get_def)

subsection \<open>The single-page corpus\<close>

lemma c1_transition: "transition_model c1 ''a.html'' d = Inr [(''a.html'', 1)]"
  by (simp add: c1_def transition_model_def page_weight_def dict_get_def py_div_def)

lemma c1_sample_loop:
  "sample_loop c1 d rnd k m ''a.html'' [(''a.html'', IntV j)] = Inr [(''a.html'', IntV (j + int m))]"
proof (induction m arbitrary: k j)
  case 0
  show ?case by simp
next
  case (Suc m)
  show ?case using Suc.IH [of "Suc k" "j + 1"]
    by (simp add: dict_get_def c1_transition random_choices_def)
qed

lemma c1_sample:
  assumes "0 < n"
  shows "sample_pagerank c1 d n rnd = Inr [(''a.html'', FloatV 1)]"
proof -
  have r: "random_choice (map fst c1) (rnd 0) = Inr ''a.html''"
    by (simp add: c1_def random_choice_def)
  have z: "zero_loop (map fst c1) [] = [(''a.html'', IntV 0)]"
    by (simp add: c1_def)
  have k: "map fst c1 = [''a.html'']" by (simp add: c1_def)
  show ?thesis using assms
    by (simp add: sample_pagerank_def r z c1_sample_loop) (simp add: k dict_get_def num_div_def)
qed

lemma c1_iterate:
  assumes "d \<noteq> 1"
  shows "iterate_pagerank c1 d = Some (Inr [(''a.html'', 1)])"
proof -
  have i: "init_loop c1 (map fst c1) [] = Inr [(''a.html'', 1)]"
    by (simp add: c1_def py_div_def)
  have p: "pass_loop c1 d (map fst c1) (0, [(''a.html'', x)]) =
      Inr (if x - (1 - d) \<le> 1 / 1000 then 1 else 0, [(''a.html'', 1 - d)])" for x
    by (simp add: c1_def new_rank_def py_div_def dict_get_def check_page_def)
  have l: "length c1 = 1" by (simp add: c1_def)
  have n: "normalize [(''a.html'', 1 - d)] = Inr [(''a.html'', 1)]"
    using assms by (simp add: normalize_def py_div_def dict_get_def)
  have "run_passes (Suc (Suc 0)) c1 d [(''a.html'', 1)] = Some (Inr [(''a.html'', 1)])"
    by (simp add: p l n)
  then have "iterate_loop c1 d [(''a.html'', 1)] = Some (Inr [(''a.html'', 1)])"
    by (rule run_passes_returns)
  then show ?thesis by (simp add: iterate_pagerank_def i)
qed

text \<open>
  Claim C9. On the single-page corpus with the default parameters both estimators return
  the distribution that gives \<open>a.html\<close> the value 1.0, whatever the random draws are.
\<close>

theorem single_page_corpus:
  "sample_pagerank [(''a.html'', [])] DAMPING SAMPLES rnd = Inr [(''a.html'', FloatV 1)]
   \<and> iterate_pagerank [(''a.html'', [])] DAMPING = Some (Inr [(''a.html'', 1)])"
  using c1_sample [of SAMPLES DAMPING rnd] c1_iterate [of DAMPING]
  by (simp add: c1_def SAMPLES_def DAMPING_def)

subsection \<open>Configuration values are not validated\<close>

text \<open>
  The claim C7 as stated fails: a sample count of -1 is not rejected and yields the all-zero
  dictionary, and a damping factor of 2 is not rejected by the iterative estimator.
\<close>

theorem no_validation_counterexample:
  "sample_pagerank cS DAMPING (- 1) (\<lambda>k. 0) =
     Inr [(''a.html'', FloatV 0), (''b.html'', FloatV 0)]
   \<and> iterate_pagerank [(''a.html'', [])] 2 = Some (Inr [(''a.html'', 1)])"
  using c1_iterate [of 2]
  by (simp add: c1_def cS_def sample_pagerank_def random_choice_def dict_get_def num_div_def)

lemma dict_get_append_fresh:
  "p \<notin> set (map fst xs) \<Longrightarrow> dict_get (xs @ ys) p = dict_get ys p"
  by (simp add: dict_get_def map_add_def map_of_eq_None_iff [THEN iffD2] image_iff
      split: option.splits)

lemma dict_set_append_fresh:
  "p \<notin> set (map fst xs) \<Longrightarrow> dict_set (xs @ ys) p v = xs @ dict_set ys p v"
  by (induction xs) auto

lemma zero_loop_value:
  "distinct ps \<Longrightarrow> set ps \<inter> set (map fst result) = {} \<Longrightarrow>
   zero_loop ps result = result @ map (\<lambda>p. (p, IntV 0)) ps"
proof (induction ps arbitrary: result)
  case Nil
  show ?case by simp
next
  case (Cons p ps)
  have fresh: "p \<notin> set (map fst result)" using Cons.prems by auto
  have "set ps \<inter> set (map fst (result @ [(p, IntV 0)])) = {}" using Cons.prems by auto
  with Cons.IH [of "result @ [(p, IntV 0)]"] Cons.prems(1)
  show ?case by (simp add: dict_set_fresh [OF fresh])
qed

lemma divide_loop_value:
  "n \<noteq> 0 \<Longrightarrow> distinct (map fst (xs @ ys)) \<Longrightarrow>
   divide_loop n (map fst ys) (xs @ ys) =
     Inr (xs @ map (\<lambda>kv. (fst kv, FloatV (num_real (snd kv) / real_of_int n))) ys)"
proof (induction ys arbitrary: xs)
  case Nil
  show ?case by simp
next
  case (Cons y ys)
  obtain p c where y: "y = (p, c)" by (cases y)
  have fresh: "p \<notin> set (map fst xs)" using Cons.prems(2) y by auto
  have g: "dict_get (xs @ (p, c) # ys) p = Inr c"
    by (simp add: dict_get_append_fresh [OF fresh]) (simp add: dict_get_def)
  have s: "dict_set (xs @ (p, c) # ys) p v = (xs @ [(p, v)]) @ ys" for v
    by (simp add: dict_set_append_fresh [OF fresh])
  have d: "distinct (map fst ((xs @ [(p, FloatV (num_real c / real_of_int n))]) @ ys))"
    using Cons.prems(2) y by auto
  show ?case using Cons.IH [OF Cons.prems(1) d] Cons.prems(1)
    by (simp add: y g s num_div_def del: append_assoc)
qed

lemma init_loop_value:
  "corpus \<noteq> [] \<Longrightarrow> distinct ps \<Longrightarrow> set ps \<inter> set (map fst previous) = {} \<Longrightarrow>
   init_loop corpus ps previous =
     Inr (previous @ map (\<lambda>p. (p, 1 / real (length corpus))) ps)"
proof (induction ps arbitrary: previous)
  case Nil
  show ?case by simp
next
  case (Cons p ps)
  have fresh: "p \<notin> set (map fst previous)" using Cons.prems by auto
  have "set ps \<inter> set (map fst (previous @ [(p, 1 / real (length corpus))])) = {}"
    using Cons.prems by auto
  with Cons.IH [of "previous @ [(p, 1 / real (length corpus))]"] Cons.prems(1,2)
  show ?case by (simp add: py_div_def dict_set_fresh [OF fresh])
qed

lemma sum_loop_total:
  "set ps \<subseteq> set (map fst corpus) \<Longrightarrow> set ps \<subseteq> set (map fst previous) \<Longrightarrow>
   \<exists>s. sum_loop corpus previous i ps sum_Iteration = Inr s"
proof (induction ps arbitrary: sum_Iteration)
  case Nil
  show ?case by simp
next
  case (Cons p ps)
  obtain links where l: "dict_get corpus p = Inr links"
    using Cons.prems(1) dict_get_key [of p corpus] by auto
  obtain r where r: "dict_get previous p = Inr r"
    using Cons.prems(2) dict_get_key [of p previous] by auto
  have sub: "set ps \<subseteq> set (map fst corpus)" "set ps \<subseteq> set (map fst previous)"
    using Cons.prems by auto
  show ?case
  proof (cases "i \<in> set links")
    case True
    then have "links \<noteq> []" by auto
    then show ?thesis using True Cons.IH [OF sub, of "sum_Iteration + r / real (length links)"]
      by (simp add: l r py_div_def)
  next
    case False
    then show ?thesis using Cons.IH [OF sub, of sum_Iteration] by (simp add: l)
  qed
qed

lemma new_rank_total:
  assumes "corpus \<noteq> []" and "set (map fst corpus) \<subseteq> set (map fst previous)"
  shows "\<exists>current. new_rank corpus d previous i = Inr current"
proof -
  obtain s where "sum_loop corpus previous i (map fst corpus) 0 = Inr s"
    using sum_loop_total [OF subset_refl assms(2)] by blast
  then show ?thesis using assms(1) by (simp add: new_rank_def py_div_def)
qed

lemma pass_loop_total:
  "corpus \<noteq> [] \<Longrightarrow> set (map fst corpus) \<subseteq> set (map fst previous) \<Longrightarrow>
   set ps \<subseteq> set (map fst previous) \<Longrightarrow>
   \<exists>check' previous'. pass_loop corpus d ps (check, previous) = Inr (check', previous')
     \<and> map fst previous' = map fst previous"
proof (induction ps arbitrary: check previous)
  case Nil
  show ?case by simp
next
  case (Cons i rest)
  obtain current where c: "new_rank corpus d previous i = Inr current"
    using new_rank_total [OF Cons.prems(1,2)] by blast
  have mem: "i \<in> set (map fst previous)" using Cons.prems(3) by simp
  then obtain old where o: "dict_get previous i = Inr old"
    using dict_get_key [of i previous] by auto
  have k: "map fst (dict_set previous i current) = map fst previous"
    using mem by (rule keys_dict_set)
  have "\<exists>check' previous'. pass_loop corpus d rest
      (if check_page old current then check + 1 else check, dict_set previous i current)
      = Inr (check', previous') \<and> map fst previous' = map fst (dict_set previous i current)"
    using Cons.prems by (intro Cons.IH) (simp_all add: k)
  then show ?case by (simp add: c o k)
qed

text \<open>
  Claim C7, as amended. Neither estimator checks its configuration. For a non-empty corpus
  and every damping factor, inside or outside (0, 1): a negative sample count makes the
  sampling estimator return the all-zero dictionary without an error; with the sample
  count 0 the first page is drawn, the loop leaves the counters at zero, and the
  ZeroDivisionError comes from the first division of the final loop; and the iterative
  estimator sets all ranks to \<open>1 / N\<close>, completes its first pass with the damping factor
  as given, and its outcome is that of the loop after this pass.
\<close>

theorem estimators_do_not_validate:
  assumes "corpus \<noteq> []" and "dict_ok corpus"
  shows "(n < 0 \<longrightarrow> sample_pagerank corpus d n rnd =
            Inr (map (\<lambda>p. (p, FloatV 0)) (map fst corpus)))
       \<and> (n = 0 \<longrightarrow>
            random_choice (map fst corpus) (rnd 0) =
              Inr (map fst corpus ! (rnd 0 mod length corpus))
          \<and> sample_loop corpus d rnd 1 (nat n) (map fst corpus ! (rnd 0 mod length corpus))
              (zero_loop (map fst corpus) []) = Inr (map (\<lambda>p. (p, IntV 0)) (map fst corpus))
          \<and> divide_loop n (map fst corpus) (map (\<lambda>p. (p, IntV 0)) (map fst corpus)) =
              Inl ZeroDivisionError
          \<and> sample_pagerank corpus d n rnd = Inl ZeroDivisionError)
       \<and> (\<exists>check previous'.
            init_loop corpus (map fst corpus) [] =
              Inr (map (\<lambda>p. (p, 1 / real (length corpus))) (map fst corpus))
          \<and> pass_loop corpus d (map fst corpus)
              (0, map (\<lambda>p. (p, 1 / real (length corpus))) (map fst corpus)) =
              Inr (check, previous')
          \<and> iterate_pagerank corpus d =
              (if check = length corpus then Some (normalize previous')
               else iterate_loop corpus d previous'))"
proof -
  let ?keys = "map fst corpus"
  let ?zero = "map (\<lambda>p. (p, IntV 0)) ?keys"
  let ?first = "?keys ! (rnd 0 mod length corpus)"
  let ?uniform = "map (\<lambda>p. (p, 1 / real (length corpus))) ?keys"
  have dk: "distinct ?keys" using assms(2) by (simp add: dict_ok_def)
  have ne: "?keys \<noteq> []" using assms(1) by simp
  have r: "random_choice ?keys (rnd 0) = Inr ?first"
    using ne by (simp add: random_choice_def)
  have z: "zero_loop ?keys [] = ?zero"
    using zero_loop_value [OF dk, of "[]"] by simp
  have neg: "sample_pagerank corpus d n rnd = Inr (map (\<lambda>p. (p, FloatV 0)) ?keys)" if "n < 0"
  proof -
    have "divide_loop n (map fst ?zero) ([] @ ?zero) =
        Inr ([] @ map (\<lambda>kv. (fst kv, FloatV (num_real (snd kv) / real_of_int n))) ?zero)"
      using that dk by (intro divide_loop_value) (simp_all add: comp_def)
    then have "divide_loop n ?keys ?zero = Inr (map (\<lambda>p. (p, FloatV 0)) ?keys)"
      by (simp add: comp_def)
    then show ?thesis using that by (simp add: sample_pagerank_def r z)
  qed
  have dz: "divide_loop 0 ?keys ?zero = Inl ZeroDivisionError"
  proof -
    obtain k ks where ks: "?keys = k # ks" using ne by (cases ?keys) auto
    have "divide_loop 0 (k # ks) (map (\<lambda>p. (p, IntV 0)) (k # ks)) = Inl ZeroDivisionError"
      by (simp add: dict_get_def num_div_def)
    then show ?thesis by (simp only: ks)
  qed
  have sz: "sample_loop corpus d rnd 1 (nat 0) ?first (zero_loop ?keys []) = Inr ?zero"
    by (simp add: z)
  have zero: "sample_pagerank corpus d 0 rnd = Inl ZeroDivisionError"
    using dz by (simp add: sample_pagerank_def r z)
  have i: "init_loop corpus ?keys [] = Inr ?uniform"
    using init_loop_value [OF assms(1) dk, of "[]"] by simp
  have "\<exists>check' previous'. pass_loop corpus d ?keys (0, ?uniform) = Inr (check', previous')
      \<and> map fst previous' = map fst ?uniform"
    using assms(1) by (intro pass_loop_total) (simp_all add: comp_def)
  then obtain check previous' where p: "pass_loop corpus d ?keys (0, ?uniform) = Inr (check, previous')"
    by blast
  have it: "iterate_pagerank corpus d =
      (if check = length corpus then Some (normalize previous')
       else iterate_loop corpus d previous')"
  proof -
    have "iterate_loop corpus d ?uniform =
        (if check = length corpus then Some (normalize previous')
         else iterate_loop corpus d previous')"
      using iterate_loop.simps [of corpus d ?uniform] by (simp only: p sum.case prod.case)
    then show ?thesis by (simp only: iterate_pagerank_def i sum.case)
  qed
  from neg r sz dz zero i p it show ?thesis by blast
qed

theorem estimators_do_not_validate_witness:
  "sample_pagerank cS 2 (- 3) (\<lambda>k. k) =
       Inr [(''a.html'', FloatV 0), (''b.html'', FloatV 0)]
   \<and> sample_pagerank cS 2 0 (\<lambda>k. k) = Inl ZeroDivisionError
   \<and> (\<exists>check previous'.
        pass_loop cS 2 (map fst cS) (0, [(''a.html'', 1 / 2), (''b.html'', 1 / 2)]) =
          Inr (check, previous')
      \<and> iterate_pagerank cS 2 =
          (if check = 2 then Some (normalize previous') else iterate_loop cS 2 previous'))"
proof -
  have a: "cS \<noteq> []" by (simp add: cS_def)
  have b: "dict_ok cS" by (simp add: cS_def dict_ok_def)
  have k: "map fst cS = [''a.html'', ''b.html'']" "length cS = 2" by (simp_all add: cS_def)
  show ?thesis
    using estimators_do_not_validate [OF a b, of "- 3" 2 "\<lambda>k. k"]
      estimators_do_not_validate [OF a b, of 0 2 "\<lambda>k. k"]
    by (simp add: k)
qed

subsection \<open>The sampling estimator\<close>








subsection \<open>The iterative estimator depends on its arguments only\<close>

lemma same_graph_keys: "same_graph corpus corpus' \<Longrightarrow> map fst corpus = map fst corpus'"
  unfolding same_graph_def by (induction rule: list_all2_induct) simp_all

lemma same_graph_length: "same_graph corpus corpus' \<Longrightarrow> length corpus = length corpus'"
  unfolding same_graph_def by (rule list_all2_lengthD)

lemma same_graph_lookup:
  "same_graph corpus corpus' \<Longrightarrow>
   rel_option (\<lambda>links links'. set links = set links') (map_of corpus p) (map_of corpus' p)"
  unfolding same_graph_def by (induction rule: list_all2_induct) auto

lemma same_graph_dict_get:
  assumes "same_graph corpus corpus'" and "dict_ok corpus" and "dict_ok corpus'"
  shows "(dict_get corpus p = Inl KeyError \<and> dict_get corpus' p = Inl KeyError)
       \<or> (\<exists>links links'. dict_get corpus p = Inr links \<and> dict_get corpus' p = Inr links'
            \<and> set links = set links' \<and> length links = length links')"
proof (cases "map_of corpus p")
  case None
  then have "map_of corpus' p = None"
    using same_graph_lookup [OF assms(1), of p] by simp
  with None show ?thesis by (simp add: dict_get_def)
next
  case (Some links)
  then obtain links' where l': "map_of corpus' p = Some links'" and eq: "set links = set links'"
    using same_graph_lookup [OF assms(1), of p] by (auto simp: option_rel_Some1)
  have "distinct links" using assms(2) Some by (rule dict_ok_out)
  moreover have "distinct links'" using assms(3) l' by (rule dict_ok_out)
  ultimately have "length links = length links'"
    using eq by (metis distinct_card)
  then show ?thesis using Some l' eq by (simp add: dict_get_def)
qed

lemma same_graph_sum_loop:
  assumes "same_graph corpus corpus'" and "dict_ok corpus" and "dict_ok corpus'"
  shows "sum_loop corpus previous i ps s = sum_loop corpus' previous i ps s"
proof (induction ps arbitrary: s)
  case Nil
  show ?case by simp
next
  case (Cons p ps)
  from same_graph_dict_get [OF assms, of p] show ?case
  proof
    assume "dict_get corpus p = Inl KeyError \<and> dict_get corpus' p = Inl KeyError"
    then show ?thesis by simp
  next
    assume "\<exists>links links'. dict_get corpus p = Inr links \<and> dict_get corpus' p = Inr links'
        \<and> set links = set links' \<and> length links = length links'"
    then obtain links links' where "dict_get corpus p = Inr links"
      "dict_get corpus' p = Inr links'" "set links = set links'" "length links = length links'"
      by blast
    then show ?thesis by (simp add: Cons.IH split: sum.splits)
  qed
qed

lemma same_graph_new_rank:
  assumes "same_graph corpus corpus'" and "dict_ok corpus" and "dict_ok corpus'"
  shows "new_rank corpus d previous i = new_rank corpus' d previous i"
  by (simp add: new_rank_def same_graph_sum_loop [OF assms] same_graph_keys [OF assms(1)]
      same_graph_length [OF assms(1)] cong: sum.case_cong)

lemma same_graph_pass_loop:
  assumes "same_graph corpus corpus'" and "dict_ok corpus" and "dict_ok corpus'"
  shows "pass_loop corpus d ps st = pass_loop corpus' d ps st"
proof (induction ps arbitrary: st)
  case Nil
  show ?case by (cases st) simp
next
  case (Cons i rest)
  obtain check previous where st: "st = (check, previous)" by (cases st)
  show ?case unfolding st
    by (simp add: same_graph_new_rank [OF assms] Cons.IH split: sum.splits)
qed

lemma same_graph_init_loop:
  assumes "same_graph corpus corpus'"
  shows "init_loop corpus ps previous = init_loop corpus' ps previous"
  by (induction ps arbitrary: previous)
    (simp_all add: same_graph_length [OF assms] cong: sum.case_cong)

lemma same_graph_run_passes:
  assumes "same_graph corpus corpus'" and "dict_ok corpus" and "dict_ok corpus'"
  shows "run_passes k corpus d previous = run_passes k corpus' d previous"
proof (induction k arbitrary: previous)
  case 0
  show ?case by simp
next
  case (Suc k)
  show ?case
    by (simp add: same_graph_pass_loop [OF assms] same_graph_keys [OF assms(1)]
        same_graph_length [OF assms(1)] Suc.IH split: sum.splits prod.splits)
qed

lemma same_graph_iterate_loop:
  assumes "same_graph corpus corpus'" and "dict_ok corpus" and "dict_ok corpus'"
  shows "iterate_loop corpus d previous = iterate_loop corpus' d previous"
proof (cases "iterate_loop corpus d previous")
  case None
  then have "iterate_loop corpus' d previous = None"
    by (simp add: iterate_loop_None_iff same_graph_run_passes [OF assms])
  with None show ?thesis by simp
next
  case (Some r)
  then have "iterate_loop corpus' d previous = Some r"
    by (simp add: iterate_loop_Some_iff same_graph_run_passes [OF assms])
  with Some show ?thesis by simp
qed

text \<open>
  Claim C8. \<open>iterate_pagerank\<close> takes no random draw and reads no state besides its
  arguments; the one thing that can differ between two calls with equal arguments is the
  order in which the out-sets list their elements, and the outcome (the returned
  dictionary, the exception, or running forever) does not depend on it.
\<close>

theorem iterate_pagerank_deterministic:
  assumes "same_graph corpus corpus'" and "dict_ok corpus" and "dict_ok corpus'"
  shows "iterate_pagerank corpus d = iterate_pagerank corpus' d"
  by (simp add: iterate_pagerank_def same_graph_init_loop [OF assms(1)]
      same_graph_keys [OF assms(1)] same_graph_iterate_loop [OF assms] split: sum.splits)

theorem iterate_pagerank_deterministic_witness:
  "iterate_pagerank corpus3 DAMPING = iterate_pagerank corpus3' DAMPING"
  by (rule iterate_pagerank_deterministic)
    (simp_all add: corpus3_def corpus3'_def same_graph_def dict_ok_def insert_commute)

subsection \<open>The iterative estimator returns without a cap\<close>

























subsection \<open>The sums in floating-point arithmetic\<close>




text \<open>With the identity as rounding the definitions are those of the exact embedding.\<close>

lemma py_div_fl_id: "py_div_fl (\<lambda>x. x) = py_div"
  by (intro ext) (simp add: py_div_fl_def py_div_def)

lemma link_loop_fl_id: "link_loop_fl (\<lambda>x. x) p d links rest initual = link_loop p d links rest initual"
  by (induction rest arbitrary: initual) (auto simp: py_div_fl_id split: sum.splits)

lemma page_weight_fl_id: "page_weight_fl (\<lambda>x. x) corpus page d p = page_weight corpus page d p"
  by (simp add: page_weight_fl_def page_weight_def py_div_fl_id link_loop_fl_id
      cong: sum.case_cong if_cong)

lemma transition_loop_fl_id:
  "transition_loop_fl (\<lambda>x. x) corpus page d ps result = transition_loop corpus page d ps result"
  by (induction ps arbitrary: result) (simp_all add: page_weight_fl_id cong: sum.case_cong)

lemma transition_model_fl_id: "transition_model_fl (\<lambda>x. x) corpus page d = transition_model corpus page d"
  by (simp add: transition_model_fl_def transition_model_def transition_loop_fl_id)

lemma accumulate_total_id: "accumulate_total (\<lambda>x. x) ws = sum_list ws"
proof (cases ws)
  case Nil
  then show ?thesis by simp
next
  case (Cons w ws')
  have "foldl (\<lambda>total x. total + x) a xs = a + sum_list xs" for a :: real and xs
    by (induction xs arbitrary: a) simp_all
  then show ?thesis using Cons by simp
qed

lemma random_choices_fl_id: "random_choices_fl (\<lambda>x. x) population weights r = random_choices population weights r"
  by (simp add: random_choices_fl_def random_choices_def accumulate_total_id)

lemma sample_loop_fl_id:
  "sample_loop_fl (\<lambda>x. x) corpus d rnd k m currentPage result =
   sample_loop corpus d rnd k m currentPage result"
  by (induction m arbitrary: k currentPage result)
     (simp_all add: transition_model_fl_id random_choices_fl_id cong: sum.case_cong)

lemma divide_loop_fl_id: "divide_loop_fl (\<lambda>x. x) n ps result = divide_loop n ps result"
  by (induction ps arbitrary: result)
     (simp_all add: num_div_fl_def num_div_def cong: sum.case_cong)

lemma sample_pagerank_fl_id: "sample_pagerank_fl (\<lambda>x. x) corpus d n rnd = sample_pagerank corpus d n rnd"
  by (simp add: sample_pagerank_fl_def sample_pagerank_def sample_loop_fl_id divide_loop_fl_id
      cong: sum.case_cong)









































end
